theory Spec2Isabelle
  imports
    Complex_Main
    "HOL-Library.Sublist"
    "HOL-Library.AList"
    "HOL-Library.FSet"
    "HOL-Library.Char_ord"
    "HOL-Library.List_Lexorder"
begin

section \<open>Strings\<close>

text \<open>
  A Python \<open>str\<close> is modelled by its UTF-8 bytes (\<^typ>\<open>string\<close>). The operations the
  program uses (\<open>endswith\<close>, \<open>in\<close>, \<open>split(":", 1)\<close>, \<open>sorted\<close>) only look for
  ASCII patterns or compare code points, and UTF-8 keeps both: a byte-wise suffix or
  infix of ASCII characters is a code-point suffix or infix, and the byte-wise
  lexicographic order is the code-point order.
\<close>

definition endswith :: "string \<Rightarrow> string \<Rightarrow> bool" where
  "endswith s suf = (length suf \<le> length s \<and> drop (length s - length suf) s = suf)"

fun startswith :: "string \<Rightarrow> string \<Rightarrow> bool" where
  "startswith s [] = True"
| "startswith [] (p # ps) = False"
| "startswith (c # cs) (p # ps) = (c = p \<and> startswith cs ps)"

text \<open>\<open>needle in s\<close> on strings.\<close>

fun contains :: "string \<Rightarrow> string \<Rightarrow> bool" where
  "contains [] needle = (needle = [])"
| "contains (c # cs) needle = (startswith (c # cs) needle \<or> contains cs needle)"

text \<open>
  \<open>q.split(":", 1)\<close>: the pieces before and after the first colon, or the whole
  string alone when it has no colon.
\<close>

definition split_colon1 :: "string \<Rightarrow> string list" where
  "split_colon1 q =
     (if CHR '':'' \<in> set q
      then [takeWhile (\<lambda>c. c \<noteq> CHR '':'') q, tl (dropWhile (\<lambda>c. c \<noteq> CHR '':'') q)]
      else [q])"

text \<open>
  \<open>str.strip()\<close> removes the characters for which \<open>str.isspace\<close> holds from both ends.
  \<open>strip_front\<close> removes them from the front of the UTF-8 bytes; the code points are
  U+0009..U+000D, U+001C..U+0020, U+0085, U+00A0, U+1680, U+2000..U+200A, U+2028, U+2029,
  U+202F, U+205F and U+3000.
\<close>

definition ascii_space :: "char \<Rightarrow> bool" where
  "ascii_space c = (c \<in> {CHR 0x09, CHR 0x0A, CHR 0x0B, CHR 0x0C, CHR 0x0D,
                         CHR 0x1C, CHR 0x1D, CHR 0x1E, CHR 0x1F, CHR 0x20})"

definition utf8_spaces :: "string list" where
  "utf8_spaces =
     [[CHR 0xC2, CHR 0x85], [CHR 0xC2, CHR 0xA0], [CHR 0xE1, CHR 0x9A, CHR 0x80],
      [CHR 0xE2, CHR 0x80, CHR 0x80], [CHR 0xE2, CHR 0x80, CHR 0x81],
      [CHR 0xE2, CHR 0x80, CHR 0x82], [CHR 0xE2, CHR 0x80, CHR 0x83],
      [CHR 0xE2, CHR 0x80, CHR 0x84], [CHR 0xE2, CHR 0x80, CHR 0x85],
      [CHR 0xE2, CHR 0x80, CHR 0x86], [CHR 0xE2, CHR 0x80, CHR 0x87],
      [CHR 0xE2, CHR 0x80, CHR 0x88], [CHR 0xE2, CHR 0x80, CHR 0x89],
      [CHR 0xE2, CHR 0x80, CHR 0x8A], [CHR 0xE2, CHR 0x80, CHR 0xA8],
      [CHR 0xE2, CHR 0x80, CHR 0xA9], [CHR 0xE2, CHR 0x80, CHR 0xAF],
      [CHR 0xE2, CHR 0x81, CHR 0x9F], [CHR 0xE3, CHR 0x80, CHR 0x80]]"

text \<open>
  The number of bytes of the white-space character at the front of the string (0 when
  there is none); \<open>wss\<close> is the table of multi-byte white space.
\<close>

definition space_width :: "string list \<Rightarrow> string \<Rightarrow> nat" where
  "space_width wss s =
     (case s of
        [] \<Rightarrow> 0
      | c # cs \<Rightarrow>
          if ascii_space c then 1
          else (case filter (startswith s) wss of [] \<Rightarrow> 0 | w # ws \<Rightarrow> length w))"

function strip_front :: "string list \<Rightarrow> string \<Rightarrow> string" where
  "strip_front wss s =
     (if space_width wss s = 0 then s else strip_front wss (drop (space_width wss s) s))"
  by pat_completeness auto
termination
proof (relation "measure (\<lambda>(wss, s). length s)")
  show "wf (measure (\<lambda>(wss, s). length s))" by simp
next
  fix wss :: "string list" and s :: string
  assume width: "space_width wss s \<noteq> 0"
  have sw: "startswith t w \<Longrightarrow> length w \<le> length t" for t w :: string
    by (induction t w rule: startswith.induct) auto
  have "s \<noteq> []"
    using width by (auto simp: space_width_def)
  moreover have "0 < space_width wss s"
    using width by simp
  ultimately show "((wss, drop (space_width wss s) s), (wss, s)) \<in> measure (\<lambda>(wss, s). length s)"
    by simp
qed

declare strip_front.simps [simp del]

definition lstrip :: "string \<Rightarrow> string" where
  "lstrip s = strip_front utf8_spaces s"

text \<open>
  UTF-8 is self-synchronising, so white space at the end of the string is white space
  at the front of the reversed bytes, read with the reversed table.
\<close>

definition rstrip :: "string \<Rightarrow> string" where
  "rstrip s = rev (strip_front (map rev utf8_spaces) (rev s))"

definition strip :: "string \<Rightarrow> string" where
  "strip s = rstrip (lstrip s)"

section \<open>Command line: the query map\<close>

text \<open>
  \<open>DEFAULT_QUERIES\<close> (lines 19-23). A \<open>dict\<close> keeps insertion order, assignment to
  a present key replaces the value in place: an association list under
  \<^const>\<open>AList.update\<close>.
\<close>

definition DEFAULT_QUERIES :: "(string \<times> string) list" where
  "DEFAULT_QUERIES =
     [(''FY 2024 DoD Budget'',
       ''DoD budget FY 2024 spending cur filetype:pdf site:*.gov -inurl:(signup | login)''),
      (''FY 2025 DoD Budget'',
       ''DoD budget FY 2025 spending cur filetype:pdf site:*.gov -inurl:(signup | login)''),
      (''FY 2024/2025 DoD Vendor Spending'',
       ''DoD vendor spending FY 2024 OR FY 2025 cur filetype:pdf site:*.gov -inurl:(signup | login)'')]"

text \<open>
  \<open>sys.exit(1)\<close> after \<open>logging.error\<close>: the message logged and the exit status.
\<close>

datatype failure = Exit string int

definition invalid_query_message :: "string \<Rightarrow> string" where
  "invalid_query_message q = ''Invalid query format: '' @ q @ ''. Expected 'Title:query'' @ [CHR 0x27]"

text \<open>
  The loop of \<open>_get_queries\<close> (lines 204-212). Unpacking \<open>title, query = q.split(":", 1)\<close>
  raises \<open>ValueError\<close> unless the split has two pieces; the handler logs and exits.
\<close>

fun parse_queries :: "string list \<Rightarrow> (string \<times> string) list \<Rightarrow> failure + (string \<times> string) list" where
  "parse_queries [] queries = Inr queries"
| "parse_queries (q # qs) queries =
     (case split_colon1 q of
        [title, query] \<Rightarrow> parse_queries qs (AList.update (strip title) (strip query) queries)
      | _ \<Rightarrow> Inl (Exit (invalid_query_message q) 1))"

text \<open>
  \<open>args.queries\<close> is \<open>None\<close> when \<open>-q\<close> is absent and a list (maybe empty) otherwise;
  \<open>not args.queries\<close> holds for \<open>None\<close> and for the empty list.
\<close>

definition get_queries :: "string list option \<Rightarrow> failure + (string \<times> string) list" where
  "get_queries queries_arg =
     (case queries_arg of
        None \<Rightarrow> Inr DEFAULT_QUERIES
      | Some [] \<Rightarrow> Inr DEFAULT_QUERIES
      | Some (q # qs) \<Rightarrow> parse_queries (q # qs) [])"

section \<open>Addresses\<close>

text \<open>
  \<open>urllib.parse.urlsplit\<close>, as far as the program and its specification look at an
  address: the network location (\<open>urlparse(url).netloc\<close>, line 46) and the path. The
  scheme is the text before the first colon when that text starts with an ASCII letter
  and holds only letters, digits, \<open>+\<close>, \<open>-\<close> and \<open>.\<close>; the network location follows
  a leading \<open>//\<close> and ends before the first \<open>/\<close>, \<open>?\<close> or \<open>#\<close>; the path ends
  before the first \<open>?\<close> or \<open>#\<close>. A network location with one square bracket and not
  the other raises \<open>ValueError\<close> (Invalid IPv6 URL). The removal of leading control
  characters and of tab, CR and LF that newer versions of the library do first is left
  out, as is their validation of the bracketed host.
\<close>

datatype py_exception = IndexError | ValueError

definition ascii_alpha :: "char \<Rightarrow> bool" where
  "ascii_alpha c = (c \<in> set ''abcdefghijklmnopqrstuvwxyzABCDEFGHIJKLMNOPQRSTUVWXYZ'')"

definition scheme_char :: "char \<Rightarrow> bool" where
  "scheme_char c = (ascii_alpha c \<or> c \<in> set ''0123456789+-.'')"

definition after_scheme :: "string \<Rightarrow> string" where
  "after_scheme url =
     (let s = takeWhile (\<lambda>c. c \<noteq> CHR '':'') url
      in if CHR '':'' \<in> set url \<and> s \<noteq> [] \<and> ascii_alpha (hd url) \<and> list_all scheme_char s
         then tl (dropWhile (\<lambda>c. c \<noteq> CHR '':'') url)
         else url)"

definition netloc_end :: "char \<Rightarrow> bool" where
  "netloc_end c = (c = CHR ''/'' \<or> c = CHR ''?'' \<or> c = CHR ''#'')"

definition urlparse_netloc :: "string \<Rightarrow> py_exception + string" where
  "urlparse_netloc url =
     (let r = after_scheme url
      in if take 2 r = ''//''
         then (let n = takeWhile (\<lambda>c. \<not> netloc_end c) (drop 2 r)
               in if (CHR ''['' \<in> set n \<and> CHR '']'' \<notin> set n) \<or> (CHR '']'' \<in> set n \<and> CHR ''['' \<notin> set n)
                  then Inl ValueError
                  else Inr n)
         else Inr [])"

definition urlsplit_path :: "string \<Rightarrow> string" where
  "urlsplit_path url =
     (let r = after_scheme url;
          p = (if take 2 r = ''//'' then dropWhile (\<lambda>c. \<not> netloc_end c) (drop 2 r) else r)
      in takeWhile (\<lambda>c. c \<noteq> CHR ''?'' \<and> c \<noteq> CHR ''#'') p)"

section \<open>Configuration\<close>

record Config =
  timeout :: int
  user_agent :: string
  max_retries :: int
  backoff_factor :: real
  retry_status_codes :: "int list"
  search_results_limit :: int
  max_workers :: int
  requests_per_second :: real
  domain_rate_limit :: real
  min_request_delay :: real

text \<open>The defaults of the dataclass (lines 27-36); floats are read as reals.\<close>

definition default_Config :: Config where
  "default_Config =
     \<lparr> timeout = 10,
       user_agent = ''Mozilla/5.0 (Windows NT 10.0; Win64; x64) AppleWebKit/537.36 (KHTML, like Gecko) Chrome/91.0.4472.124 Safari/537.36'',
       max_retries = 3,
       backoff_factor = 3 / 2,
       retry_status_codes = [429, 500, 502, 503, 504],
       search_results_limit = 20,
       max_workers = 8,
       requests_per_second = 2,
       domain_rate_limit = 1,
       min_request_delay = 1 / 4 \<rparr>"

section \<open>Rate limiter\<close>

text \<open>\<open>int(x)\<close> on a float truncates towards zero.\<close>

definition py_int :: "real \<Rightarrow> int" where
  "py_int x = (if 0 \<le> x then \<lfloor>x\<rfloor> else \<lceil>x\<rceil>)"

text \<open>
  The state of a \<open>RateLimiter\<close>: the global window and the windows by host. The
  \<open>defaultdict(list)\<close> answers \<open>[]\<close> for a host it has not seen.
\<close>

record RateLimiter =
  global_timestamps :: "real list"
  domain_timestamps :: "string \<Rightarrow> real list"

definition RateLimiter_init :: RateLimiter where
  "RateLimiter_init = \<lparr> global_timestamps = [], domain_timestamps = (\<lambda>d. []) \<rparr>"

text \<open>Lines 50-51: both windows lose the entries that are a second old or older.\<close>

definition prune :: "real \<Rightarrow> string \<Rightarrow> RateLimiter \<Rightarrow> RateLimiter" where
  "prune current_time domain rl =
     \<lparr> global_timestamps = filter (\<lambda>t. current_time - t < 1) (global_timestamps rl),
       domain_timestamps = (domain_timestamps rl)
         (domain := filter (\<lambda>t. current_time - t < 1) (domain_timestamps rl domain)) \<rparr>"

text \<open>
  Lines 53-56 and 58-61, the same code on the global list and on the host's list: when
  the list is as long as the ceiling, sleep until its first entry is a second older
  than \<open>current_time\<close>. \<open>clock\<close> is the time when the test is reached, the result the
  time after it; \<open>timestamps[0]\<close> raises on the empty list.
\<close>

definition throttle :: "real \<Rightarrow> real \<Rightarrow> real list \<Rightarrow> real \<Rightarrow> py_exception + real" where
  "throttle limit current_time timestamps clock =
     (if py_int limit \<le> int (length timestamps)
      then (case timestamps of
              [] \<Rightarrow> Inl IndexError
            | t0 # ts \<Rightarrow>
                (let sleep_time = 1 - (current_time - t0)
                 in if 0 < sleep_time then Inr (clock + sleep_time) else Inr clock))
      else Inr clock)"

text \<open>
  \<open>RateLimiter.wait\<close> (lines 45-65). \<open>current_time\<close> is the clock read on line 47,
  before the lock is taken; \<open>t_lock\<close> is the time when the lock is obtained, which is
  later when another worker holds it. Inside the lock the clock moves by the sleeps
  alone (a sleep lasts as long as asked, the other statements take no time), so lines
  63 and 64 read the same time. The result is the state left behind and either the
  exception raised or the time of return. \<open>time.sleep\<close> raises \<open>ValueError\<close> on a
  negative length; the other two sleeps are guarded by \<open>sleep_time > 0\<close>.
\<close>

definition wait :: "Config \<Rightarrow> string \<Rightarrow> real \<Rightarrow> real \<Rightarrow> RateLimiter \<Rightarrow> (py_exception + real) \<times> RateLimiter" where
  "wait cfg url current_time t_lock rl =
     (case urlparse_netloc url of
        Inl e \<Rightarrow> (Inl e, rl)
      | Inr domain \<Rightarrow>
          (let rl1 = prune current_time domain rl
           in case throttle (requests_per_second cfg) current_time (global_timestamps rl1) t_lock of
                Inl e \<Rightarrow> (Inl e, rl1)
              | Inr t1 \<Rightarrow>
                  (case throttle (domain_rate_limit cfg) current_time (domain_timestamps rl1 domain) t1 of
                     Inl e \<Rightarrow> (Inl e, rl1)
                   | Inr t2 \<Rightarrow>
                       (let rl2 = \<lparr> global_timestamps = global_timestamps rl1 @ [t2],
                                   domain_timestamps = (domain_timestamps rl1)
                                     (domain := domain_timestamps rl1 domain @ [t2]) \<rparr>
                        in if min_request_delay cfg < 0 then (Inl ValueError, rl2)
                           else (Inr (t2 + min_request_delay cfg), rl2)))))"

text \<open>
  What a caller of \<open>wait\<close> sees is whether it returns or raises. From the state of a
  fresh limiter that is decided by the address and the configuration alone (lemmas
  \<open>wait_raises_iff\<close> and \<open>wait_keeps_limiter_inv\<close> below): the address does not
  parse, or a ceiling truncates to less than 1 (then the first index into an empty
  window raises, nothing is ever appended and every later call raises as well), or the
  delay is negative.
\<close>

definition limiter_raises :: "Config \<Rightarrow> string \<Rightarrow> bool" where
  "limiter_raises cfg url =
     (isl (urlparse_netloc url) \<or> py_int (requests_per_second cfg) < 1
      \<or> py_int (domain_rate_limit cfg) < 1 \<or> min_request_delay cfg < 0)"

definition limiter_inv :: "Config \<Rightarrow> RateLimiter \<Rightarrow> bool" where
  "limiter_inv cfg rl =
     (py_int (requests_per_second cfg) < 1 \<or> py_int (domain_rate_limit cfg) < 1
      \<longrightarrow> global_timestamps rl = [] \<and> (\<forall>d. domain_timestamps rl d = []))"

section \<open>The network and the search provider\<close>

text \<open>
  What the program reads from a response to \<open>session.head\<close>: the status code and the
  \<open>Content-Type\<close> header, if there is one.
\<close>

record response =
  status_code :: int
  content_type :: "string option"

text \<open>
  The collaborators, as functions of their arguments. \<open>search\<close> is the search provider
  (\<open>None\<close>: it raised). \<open>http_head\<close> is \<open>session.head\<close> with redirects followed
  (\<open>None\<close>: it raised). \<open>http_get\<close> is \<open>session.get\<close>, \<open>raise_for_status\<close> and the
  parse of the body together: the \<open>href\<close> values of the page's \<open>a\<close> elements in
  document order (\<open>None\<close>: one of the three raised). \<open>urljoin\<close> is
  \<open>urllib.parse.urljoin\<close> (\<open>None\<close>: it raised \<open>ValueError\<close>).
\<close>

record world =
  search :: "string \<Rightarrow> string list option"
  http_head :: "string \<Rightarrow> response option"
  http_get :: "string \<Rightarrow> string list option"
  urljoin :: "string \<Rightarrow> string \<Rightarrow> string option"

section \<open>The searcher\<close>

text \<open>
  The calls made are kept in a log next to the \<open>cache\<close>, so that properties of a
  run can be stated: which method was called on which address, and for which reason
  (\<open>Seed\<close>: the address was handed to \<open>_process_url\<close>; \<open>Link p\<close>: it was
  extracted from page \<open>p\<close>).
\<close>

datatype origin = Seed | Link string

datatype call = Search string | CheckDirect origin string | ScrapePage origin string

record PDFSearcher =
  cache :: "string fset"
  calls :: "call list"

definition PDFSearcher_init :: PDFSearcher where
  "PDFSearcher_init = \<lparr> cache = {||}, calls = [] \<rparr>"

text \<open>Line 129: status 200 and \<open>"application/pdf" in content_type\<close>.\<close>

definition is_pdf_response :: "response \<Rightarrow> bool" where
  "is_pdf_response r =
     (status_code r = 200
      \<and> contains (case content_type r of None \<Rightarrow> [] | Some ct \<Rightarrow> ct) ''application/pdf'')"

text \<open>
  \<open>_check_direct_pdf\<close> (lines 122-136). The workers run one after the other here; the
  lock makes each update of \<open>pdf_links\<close> and of the \<open>cache\<close> atomic, so a run of the
  threads is a run in some order. An exception of \<open>wait\<close> leaves the method before
  the request; every caller drops it (line 118, or a future nobody reads).
\<close>

definition check_direct_pdf ::
  "world \<Rightarrow> Config \<Rightarrow> origin \<Rightarrow> string \<Rightarrow> string fset \<times> PDFSearcher \<Rightarrow> string fset \<times> PDFSearcher" where
  "check_direct_pdf w cfg org url = (\<lambda>(pdf_links, s).
     let s1 = s\<lparr>calls := calls s @ [CheckDirect org url]\<rparr>
     in if limiter_raises cfg url then (pdf_links, s1)
        else (case http_head w url of
                None \<Rightarrow> (pdf_links, s1)
              | Some r \<Rightarrow> if is_pdf_response r then (finsert url pdf_links, s1) else (pdf_links, s1)))"

text \<open>
  Lines 144-145: the set of the joined addresses of the \<open>href\<close> values that end in
  \<open>.pdf\<close>, as a list without repetition (a Python set is iterated in some order of
  its own; the order chosen here is that of \<^const>\<open>remdups\<close>). One \<open>urljoin\<close> that
  raises ends the whole comprehension.
\<close>

definition pdf_urls :: "world \<Rightarrow> string \<Rightarrow> string list \<Rightarrow> string list option" where
  "pdf_urls w url hrefs =
     map_option remdups (those (map (urljoin w url) (filter (\<lambda>href. endswith href ''.pdf'') hrefs)))"

text \<open>\<open>_scrape_page_for_pdfs\<close> (lines 138-152).\<close>

definition scrape_page_for_pdfs ::
  "world \<Rightarrow> Config \<Rightarrow> origin \<Rightarrow> string \<Rightarrow> string fset \<times> PDFSearcher \<Rightarrow> string fset \<times> PDFSearcher" where
  "scrape_page_for_pdfs w cfg org url = (\<lambda>(pdf_links, s).
     let s1 = s\<lparr>calls := calls s @ [ScrapePage org url]\<rparr>
     in if limiter_raises cfg url then (pdf_links, s1)
        else (case http_get w url of
                None \<Rightarrow> (pdf_links, s1)
              | Some hrefs \<Rightarrow>
                  (case pdf_urls w url hrefs of
                     None \<Rightarrow> (pdf_links, s1)
                   | Some urls \<Rightarrow>
                       fold (\<lambda>pdf_url. check_direct_pdf w cfg (Link url) pdf_url) urls (pdf_links, s1))))"

text \<open>\<open>_process_url\<close> (lines 105-120).\<close>

definition process_url ::
  "world \<Rightarrow> Config \<Rightarrow> string \<Rightarrow> string fset \<times> PDFSearcher \<Rightarrow> string fset \<times> PDFSearcher" where
  "process_url w cfg url = (\<lambda>(pdf_links, s).
     if url |\<in>| cache s then (pdf_links, s)
     else (let s1 = s\<lparr>cache := finsert url (cache s)\<rparr>
           in if limiter_raises cfg url then (pdf_links, s1)
              else if endswith url ''.pdf'' then check_direct_pdf w cfg Seed url (pdf_links, s1)
              else scrape_page_for_pdfs w cfg Seed url (pdf_links, s1)))"

text \<open>
  The \<open>executor.map\<close> of line 100 over the search results, from a given set of links.
\<close>

definition crawl ::
  "world \<Rightarrow> Config \<Rightarrow> string list \<Rightarrow> string fset \<times> PDFSearcher \<Rightarrow> string fset \<times> PDFSearcher" where
  "crawl w cfg search_results = fold (process_url w cfg) search_results"

text \<open>\<open>find_pdf_links\<close> (lines 89-103).\<close>

definition find_pdf_links :: "world \<Rightarrow> Config \<Rightarrow> string \<Rightarrow> PDFSearcher \<Rightarrow> string fset \<times> PDFSearcher" where
  "find_pdf_links w cfg query s =
     (let s1 = s\<lparr>calls := calls s @ [Search query]\<rparr>
      in case search w query of
           None \<Rightarrow> ({||}, s1)
         | Some search_results \<Rightarrow> crawl w cfg search_results ({||}, s1))"

text \<open>
  The loop of \<open>_perform_searches\<close> (lines 216-232) over the query map: the queries
  one after the other, on the one searcher of the application.
\<close>

definition search_step ::
  "world \<Rightarrow> Config \<Rightarrow> string \<times> string \<Rightarrow> (string \<times> string fset) list \<times> PDFSearcher
     \<Rightarrow> (string \<times> string fset) list \<times> PDFSearcher" where
  "search_step w cfg = (\<lambda>(title, query) (search_results, s).
     let (pdf_links, s') = find_pdf_links w cfg query s
     in (AList.update title pdf_links search_results, s'))"

definition search_all ::
  "world \<Rightarrow> Config \<Rightarrow> (string \<times> string) list \<Rightarrow> PDFSearcher
     \<Rightarrow> (string \<times> string fset) list \<times> PDFSearcher" where
  "search_all w cfg queries s = fold (search_step w cfg) queries ([], s)"

section \<open>The result file\<close>

text \<open>A cell handed to \<open>csv.writer\<close>: a string, or the integer of the last row.\<close>

datatype cell = Str string | Num nat

text \<open>
  One round of the loop of lines 164-168: the rows written so far and \<open>total_pdfs\<close>.
\<close>

definition write_query :: "string \<times> string fset \<Rightarrow> cell list list \<times> nat \<Rightarrow> cell list list \<times> nat" where
  "write_query = (\<lambda>(title, links) (rows, total_pdfs).
     (rows @ map (\<lambda>link. [Str title, Str link]) (sorted_list_of_fset links) @ [[]],
      total_pdfs + fcard links))"

text \<open>
  \<open>FileHandler.save_results\<close> (lines 156-172): the rows given to the writer, in order,
  when the file can be written; \<open>ctime\<close> is the value of \<open>time.ctime()\<close>.
\<close>

definition save_results :: "string \<Rightarrow> (string \<times> string fset) list \<Rightarrow> cell list list" where
  "save_results ctime search_results =
     (let (rows, total_pdfs) =
            fold write_query search_results
              ([[Str ''Search Performed On'', Str ctime], [], [Str ''Query'', Str ''PDF Link'']], 0)
      in rows @ [[Str ''Total PDFs Found'', Num total_pdfs]])"

section \<open>The application\<close>

text \<open>
  \<open>SearchApplication.run\<close> (lines 180-184) on the parsed \<open>-q\<close> option: the exit
  status, the calls made and the rows written. \<open>sys.exit(1)\<close> in \<open>_get_queries\<close>
  ends the run before the first search.
\<close>

record outcome =
  exit_status :: int
  logged :: "string list"
  made :: "call list"
  written :: "cell list list option"

definition run :: "world \<Rightarrow> string \<Rightarrow> string list option \<Rightarrow> outcome" where
  "run w ctime queries_arg =
     (case get_queries queries_arg of
        Inl (Exit msg code) \<Rightarrow> \<lparr> exit_status = code, logged = [msg], made = [], written = None \<rparr>
      | Inr queries \<Rightarrow>
          (let (search_results, s) = search_all w default_Config queries PDFSearcher_init
           in \<lparr> exit_status = 0, logged = [], made = calls s,
                written = Some (save_results ctime search_results) \<rparr>))"

section \<open>Notions used in the statements\<close>

text \<open>
  The title and the query text that an argument with a colon puts into the map
  (lines 207-208).
\<close>

definition title_query :: "string \<Rightarrow> string \<times> string" where
  "title_query q =
     (strip (takeWhile (\<lambda>c. c \<noteq> CHR '':'') q), strip (tl (dropWhile (\<lambda>c. c \<noteq> CHR '':'') q)))"

text \<open>The addresses that a scrape of \<open>url\<close> goes on to check.\<close>

definition page_links :: "world \<Rightarrow> Config \<Rightarrow> string \<Rightarrow> string list" where
  "page_links w cfg url =
     (if limiter_raises cfg url then []
      else (case http_get w url of
              None \<Rightarrow> []
            | Some hrefs \<Rightarrow> (case pdf_urls w url hrefs of None \<Rightarrow> [] | Some urls \<Rightarrow> urls)))"

text \<open>The calls that \<open>_process_url\<close> makes for an address it has claimed.\<close>

definition url_calls :: "world \<Rightarrow> Config \<Rightarrow> string \<Rightarrow> call list" where
  "url_calls w cfg url =
     (if limiter_raises cfg url then []
      else if endswith url ''.pdf'' then [CheckDirect Seed url]
      else ScrapePage Seed url # map (CheckDirect (Link url)) (page_links w cfg url))"

text \<open>The calls of the probe and of the scrape on an address, and those made for a seed.\<close>

fun on_address :: "string \<Rightarrow> call \<Rightarrow> bool" where
  "on_address u (Search q) = False"
| "on_address u (CheckDirect org v) = (v = u)"
| "on_address u (ScrapePage org v) = (v = u)"

fun for_seed :: "call \<Rightarrow> bool" where
  "for_seed (Search q) = False"
| "for_seed (CheckDirect org v) = (org = Seed)"
| "for_seed (ScrapePage org v) = (org = Seed)"

definition calls_on :: "string \<Rightarrow> call list \<Rightarrow> call list" where
  "calls_on u cs = filter (on_address u) cs"

definition seed_calls_on :: "string \<Rightarrow> call list \<Rightarrow> call list" where
  "seed_calls_on u cs = filter (\<lambda>c. on_address u c \<and> for_seed c) cs"

text \<open>The queries searched, in order.\<close>

fun searched :: "call list \<Rightarrow> string list" where
  "searched [] = []"
| "searched (Search q # cs) = q # searched cs"
| "searched (c # cs) = searched cs"

text \<open>The addresses that the search provider returns for the queries of the map.\<close>

definition seeds :: "world \<Rightarrow> (string \<times> string) list \<Rightarrow> string set" where
  "seeds w queries = {u. \<exists>(title, query) \<in> set queries. \<exists>rs. search w query = Some rs \<and> u \<in> set rs}"

text \<open>The calls that a step from \<open>s\<close> to \<open>s'\<close> has added.\<close>

definition new_calls :: "PDFSearcher \<Rightarrow> PDFSearcher \<Rightarrow> call list" where
  "new_calls s s' = drop (length (calls s)) (calls s')"

text \<open>A world for examples: no search results, no responses, \<open>urljoin\<close> on absolute references.\<close>

definition offline :: world where
  "offline = \<lparr> search = (\<lambda>q. None), http_head = (\<lambda>u. None), http_get = (\<lambda>u. None),
               urljoin = (\<lambda>base href. Some href) \<rparr>"

text \<open>
  The block of one query in the file, in the words of the specification: one row for
  each location, in sorted order, and a blank row.
\<close>

definition query_block :: "string \<times> string fset \<Rightarrow> cell list list" where
  "query_block = (\<lambda>(title, links).
     map (\<lambda>link. [Str title, Str link]) (sorted_list_of_fset links) @ [[]])"

text \<open>
  A second world for examples. The query \<open>budget\<close> finds a document and a page; the
  page links to the same document, to a download link with a query part, to a viewer
  whose query part ends in \<open>.pdf\<close>, and to an address that cannot be parsed. All
  references are absolute, and \<open>urljoin\<close> answers an absolute reference with the
  reference itself.
\<close>

definition report_pdf :: string where
  "report_pdf = ''https://www.defense.gov/budget/report.pdf''"

definition landing_page :: string where
  "landing_page = ''https://www.defense.gov/budget/index.html''"

definition download_link :: string where
  "download_link = ''https://www.defense.gov/budget/summary.pdf?download=1''"

definition viewer_link :: string where
  "viewer_link = ''https://www.defense.gov/viewer?file=summary.pdf''"

definition broken_link :: string where
  "broken_link = ''https://[www.defense.gov/broken.pdf''"

definition budget_site :: world where
  "budget_site =
     \<lparr> search = (\<lambda>q. if q = ''budget'' then Some [report_pdf, landing_page] else None),
       http_head = (\<lambda>u. if u = report_pdf
                         then Some \<lparr> status_code = 200, content_type = Some ''application/pdf'' \<rparr>
                         else Some \<lparr> status_code = 404, content_type = Some ''text/html'' \<rparr>),
       http_get = (\<lambda>u. if u = landing_page then Some [report_pdf, download_link, viewer_link]
                        else None),
       urljoin = (\<lambda>base href. if href = broken_link then None else Some href) \<rparr>"

text \<open>
  The admissions of a window that lie in the second that ends at \<open>T\<close>, with the test
  of lines 50-51 (an entry exactly a second old is out); a window within its ceiling at
  time \<open>now\<close>; a limiter with all its windows within their ceilings.
\<close>

definition in_window :: "real \<Rightarrow> real list \<Rightarrow> real list" where
  "in_window T ts = filter (\<lambda>t. T - 1 < t \<and> t \<le> T) ts"

definition window_ok :: "int \<Rightarrow> real \<Rightarrow> real list \<Rightarrow> bool" where
  "window_ok limit now ts =
     ((\<forall>t\<in>set ts. t \<le> now) \<and> (\<forall>T. int (length (in_window T ts)) \<le> limit))"

definition within_ceilings :: "Config \<Rightarrow> real \<Rightarrow> RateLimiter \<Rightarrow> bool" where
  "within_ceilings cfg now rl =
     (window_ok (py_int (requests_per_second cfg)) now (global_timestamps rl)
      \<and> (\<forall>d. window_ok (py_int (domain_rate_limit cfg)) now (domain_timestamps rl d)))"

text \<open>Invariants of a run, used in the proofs.\<close>

definition claimed_once :: "PDFSearcher \<Rightarrow> bool" where
  "claimed_once s = (\<forall>u. length (seed_calls_on u (calls s)) \<le> (if u |\<in>| cache s then 1 else 0))"

definition seed_scrapes :: "string set \<Rightarrow> world \<Rightarrow> Config \<Rightarrow> PDFSearcher \<Rightarrow> bool" where
  "seed_scrapes S w cfg s =
     (\<forall>c \<in> set (calls s).
        (\<forall>org v. c = ScrapePage org v \<longrightarrow> org = Seed \<and> v \<in> S)
        \<and> (\<forall>p v. c = CheckDirect (Link p) v \<longrightarrow>
              ScrapePage Seed p \<in> set (calls s) \<and> v \<in> set (page_links w cfg p)))"

definition all_pdf :: "world \<Rightarrow> string fset \<Rightarrow> bool" where
  "all_pdf w links = (\<forall>u. u |\<in>| links \<longrightarrow> (\<exists>r. http_head w u = Some r \<and> is_pdf_response r))"

section \<open>Facts about the string operations\<close>

lemma startswith_prefix: "startswith s p = prefix p s"
  by (induction s p rule: startswith.induct) auto

lemma contains_sublist: "contains s needle = sublist needle s"
proof (induction s)
  case Nil
  then show ?case by auto
next
  case (Cons c cs)
  then show ?case by (simp add: startswith_prefix sublist_Cons_right)
qed

lemma endswith_suffix: "endswith s suf = suffix suf s"
proof
  assume "endswith s suf"
  then have "s = take (length s - length suf) s @ suf"
    by (metis append_take_drop_id endswith_def)
  then show "suffix suf s" by (rule suffixI)
next
  assume "suffix suf s"
  then obtain p where "s = p @ suf" by (auto simp: suffix_def)
  then show "endswith s suf" by (simp add: endswith_def)
qed

section \<open>The log of calls\<close>

lemma check_direct_pdf_calls:
  "calls (snd (check_direct_pdf w cfg org url ls)) = calls (snd ls) @ [CheckDirect org url]"
  by (cases ls) (simp add: check_direct_pdf_def Let_def split: option.splits)

lemma check_direct_pdf_cache:
  "cache (snd (check_direct_pdf w cfg org url ls)) = cache (snd ls)"
  by (cases ls) (simp add: check_direct_pdf_def Let_def split: option.splits)

lemma fold_check_calls:
  "calls (snd (fold (check_direct_pdf w cfg org) urls ls)) = calls (snd ls) @ map (CheckDirect org) urls"
  by (induction urls arbitrary: ls) (simp_all add: check_direct_pdf_calls)

lemma fold_check_cache:
  "cache (snd (fold (check_direct_pdf w cfg org) urls ls)) = cache (snd ls)"
  by (induction urls arbitrary: ls) (simp_all add: check_direct_pdf_cache)

lemma scrape_calls:
  "calls (snd (scrape_page_for_pdfs w cfg org url ls)) =
     calls (snd ls) @ ScrapePage org url # map (CheckDirect (Link url)) (page_links w cfg url)"
  by (cases ls)
     (simp add: scrape_page_for_pdfs_def page_links_def Let_def fold_check_calls split: option.splits)

lemma scrape_cache:
  "cache (snd (scrape_page_for_pdfs w cfg org url ls)) = cache (snd ls)"
  by (cases ls)
     (simp add: scrape_page_for_pdfs_def Let_def fold_check_cache split: option.splits)

lemma process_url_calls:
  "calls (snd (process_url w cfg url ls)) =
     calls (snd ls) @ (if url |\<in>| cache (snd ls) then [] else url_calls w cfg url)"
  by (cases ls)
     (simp add: process_url_def url_calls_def Let_def check_direct_pdf_calls scrape_calls)

lemma process_url_cache:
  "cache (snd (process_url w cfg url ls)) = finsert url (cache (snd ls))"
  by (cases ls)
     (auto simp add: process_url_def Let_def check_direct_pdf_cache scrape_cache)


lemma crawl_Cons: "crawl w cfg (u # us) ls = crawl w cfg us (process_url w cfg u ls)"
  by (simp add: crawl_def)

lemma crawl_Nil: "crawl w cfg [] ls = ls"
  by (simp add: crawl_def)

lemma crawl_invariant:
  assumes "I (snd ls)"
    and "\<And>u l s. I s \<Longrightarrow> u \<in> set us \<Longrightarrow> I (snd (process_url w cfg u (l, s)))"
  shows "I (snd (crawl w cfg us ls))"
  using assms
proof (induction us arbitrary: ls)
  case Nil
  then show ?case by (simp add: crawl_Nil)
next
  case (Cons u us)
  have "I (snd (process_url w cfg u ls))"
    using Cons.prems(1) Cons.prems(2) [of "snd ls" u "fst ls"] by simp
  then show ?case
    using Cons.IH [of "process_url w cfg u ls"] Cons.prems(2) by (simp add: crawl_Cons)
qed

lemma find_pdf_links_invariant:
  assumes "I s"
    and "\<And>s. I s \<Longrightarrow> I (s\<lparr>calls := calls s @ [Search query]\<rparr>)"
    and "\<And>u l s rs. I s \<Longrightarrow> search w query = Some rs \<Longrightarrow> u \<in> set rs
           \<Longrightarrow> I (snd (process_url w cfg u (l, s)))"
  shows "I (snd (find_pdf_links w cfg query s))"
proof (cases "search w query")
  case None
  then show ?thesis using assms(1,2) by (simp add: find_pdf_links_def)
next
  case (Some rs)
  have "I (snd (crawl w cfg rs ({||}, s\<lparr>calls := calls s @ [Search query]\<rparr>)))"
    by (rule crawl_invariant) (use assms Some in auto)
  then show ?thesis using Some by (simp add: find_pdf_links_def)
qed

lemma search_all_fold: "search_all w cfg queries s = fold (search_step w cfg) queries ([], s)"
  by (simp add: search_all_def)

lemma snd_search_step:
  "snd (search_step w cfg (title, query) (rs, s)) = snd (find_pdf_links w cfg query s)"
  by (simp add: search_step_def split: prod.splits)

lemma fst_search_step:
  "fst (search_step w cfg (title, query) (rs, s)) = AList.update title (fst (find_pdf_links w cfg query s)) rs"
  by (simp add: search_step_def split: prod.splits)

lemma fold_search_step_invariant:
  assumes "I (snd acc)"
    and "\<And>s q. I s \<Longrightarrow> q \<in> snd ` set queries \<Longrightarrow> I (s\<lparr>calls := calls s @ [Search q]\<rparr>)"
    and "\<And>u l s q rs. I s \<Longrightarrow> q \<in> snd ` set queries \<Longrightarrow> search w q = Some rs \<Longrightarrow> u \<in> set rs
           \<Longrightarrow> I (snd (process_url w cfg u (l, s)))"
  shows "I (snd (fold (search_step w cfg) queries acc))"
  using assms
proof (induction queries arbitrary: acc)
  case Nil
  then show ?case by simp
next
  case (Cons tq queries)
  obtain title query where tq: "tq = (title, query)" by (cases tq)
  obtain rs s where acc: "acc = (rs, s)" by (cases acc)
  have "I (snd (find_pdf_links w cfg query s))"
  proof (rule find_pdf_links_invariant)
    show "I s" using Cons.prems(1) acc by simp
    show "I (s\<lparr>calls := calls s @ [Search query]\<rparr>)" if "I s" for s
      using that Cons.prems(2) [of s query] tq by force
    show "I (snd (process_url w cfg u (l, s)))"
      if "I s" "search w query = Some rs" "u \<in> set rs" for u l s rs
      using that Cons.prems(3) [of s query rs u l] tq by force
  qed
  then have step: "I (snd (search_step w cfg tq acc))"
    by (simp add: tq acc snd_search_step)
  show ?case
    unfolding fold_simps
  proof (rule Cons.IH)
    show "I (snd (search_step w cfg tq acc))" by (rule step)
    show "I (s\<lparr>calls := calls s @ [Search q]\<rparr>)" if "I s" "q \<in> snd ` set queries" for s q
      using that Cons.prems(2) [of s q] by auto
    show "I (snd (process_url w cfg u (l, s)))"
      if "I s" "q \<in> snd ` set queries" "search w q = Some rs" "u \<in> set rs" for u l s q rs
      using that Cons.prems(3) [of s q rs u l] by auto
  qed
qed

lemma search_all_invariant:
  assumes "I s"
    and "\<And>s q. I s \<Longrightarrow> q \<in> snd ` set queries \<Longrightarrow> I (s\<lparr>calls := calls s @ [Search q]\<rparr>)"
    and "\<And>u l s q rs. I s \<Longrightarrow> q \<in> snd ` set queries \<Longrightarrow> search w q = Some rs \<Longrightarrow> u \<in> set rs
           \<Longrightarrow> I (snd (process_url w cfg u (l, s)))"
  shows "I (snd (search_all w cfg queries s))"
  unfolding search_all_fold
  by (rule fold_search_step_invariant) (use assms in auto)

section \<open>The query map\<close>

lemma parse_queries_colon:
  "list_all (\<lambda>q. CHR '':'' \<in> set q) qs \<Longrightarrow>
   \<exists>m. parse_queries qs acc = Inr m \<and> map_of m = map_of (rev (map title_query qs) @ acc)"
proof (induction qs arbitrary: acc)
  case Nil
  then show ?case by simp
next
  case (Cons q qs)
  then have c: "CHR '':'' \<in> set q" and rest: "list_all (\<lambda>q. CHR '':'' \<in> set q) qs" by simp_all
  obtain k v where kv: "title_query q = (k, v)" by (cases "title_query q")
  from Cons.IH [OF rest, of "AList.update k v acc"]
  obtain m where m: "parse_queries qs (AList.update k v acc) = Inr m"
    and mm: "map_of m = map_of (rev (map title_query qs) @ AList.update k v acc)" by blast
  have "parse_queries (q # qs) acc = Inr m"
    using c kv m by (simp add: split_colon1_def title_query_def)
  moreover have "map_of m = map_of (rev (map title_query (q # qs)) @ acc)"
    using mm kv by (simp add: map_of_append AList.update_conv')
  ultimately show ?case by blast
qed

lemma parse_queries_no_colon:
  "\<not> list_all (\<lambda>q. CHR '':'' \<in> set q) qs \<Longrightarrow>
   parse_queries qs acc = Inl (Exit (invalid_query_message (hd (filter (\<lambda>q. CHR '':'' \<notin> set q) qs))) 1)"
proof (induction qs arbitrary: acc)
  case Nil
  then show ?case by simp
next
  case (Cons q qs)
  show ?case
  proof (cases "CHR '':'' \<in> set q")
    case True
    with Cons.prems have "\<not> list_all (\<lambda>q. CHR '':'' \<in> set q) qs" by simp
    from Cons.IH [OF this] show ?thesis using True by (simp add: split_colon1_def)
  next
    case False
    then show ?thesis by (simp add: split_colon1_def)
  qed
qed

lemma get_queries_Some: "qs \<noteq> [] \<Longrightarrow> get_queries (Some qs) = parse_queries qs []"
  by (cases qs) (simp_all add: get_queries_def)

lemma searched_append [simp]: "searched (xs @ ys) = searched xs @ searched ys"
  by (induction xs rule: searched.induct) simp_all

lemma searched_checks [simp]: "searched (map (CheckDirect org) us) = []"
  by (induction us) simp_all

lemma searched_url_calls [simp]: "searched (url_calls w cfg u) = []"
  by (simp add: url_calls_def)

lemma searched_invariant:
  "searched (calls (snd (fold (search_step w cfg) queries acc))) =
     searched (calls (snd acc)) @ map snd queries"
proof (induction queries arbitrary: acc)
  case Nil
  then show ?case by simp
next
  case (Cons tq queries)
  obtain title query where tq: "tq = (title, query)" by (cases tq)
  obtain rs s where acc: "acc = (rs, s)" by (cases acc)
  have crawl: "searched (calls (snd (crawl w cfg us ls))) = searched (calls (snd ls))" for us ls
    by (induction us arbitrary: ls) (simp_all add: crawl_Nil crawl_Cons process_url_calls)
  have "searched (calls (snd (find_pdf_links w cfg query s))) = searched (calls s) @ [query]"
    by (simp add: find_pdf_links_def Let_def crawl split: option.splits)
  then have "searched (calls (snd (search_step w cfg tq acc))) = searched (calls (snd acc)) @ [query]"
    by (simp add: tq acc snd_search_step)
  then show ?case by (simp add: Cons.IH tq)
qed

section \<open>The visited set\<close>

lemma seed_calls_on_append [simp]: "seed_calls_on u (xs @ ys) = seed_calls_on u xs @ seed_calls_on u ys"
  by (simp add: seed_calls_on_def)

lemma seed_calls_on_Nil [simp]: "seed_calls_on u [] = []"
  by (simp add: seed_calls_on_def)

lemma seed_calls_on_url_calls:
  "length (seed_calls_on u (url_calls w cfg v)) \<le> (if u = v then 1 else 0)"
  by (simp add: url_calls_def seed_calls_on_def filter_map comp_def)

lemma claimed_once_process_url:
  assumes "claimed_once s"
  shows "claimed_once (snd (process_url w cfg v (l, s)))"
  unfolding claimed_once_def
proof
  fix u
  have old: "length (seed_calls_on u (calls s)) \<le> (if u |\<in>| cache s then 1 else 0)"
    using assms by (simp add: claimed_once_def)
  have new: "length (seed_calls_on u (url_calls w cfg v)) \<le> (if u = v then 1 else 0)"
    by (rule seed_calls_on_url_calls)
  show "length (seed_calls_on u (calls (snd (process_url w cfg v (l, s)))))
          \<le> (if u |\<in>| cache (snd (process_url w cfg v (l, s))) then 1 else 0)"
    using old new by (auto simp: process_url_calls process_url_cache split: if_splits)
qed

lemma claimed_once_search_all: "claimed_once (snd (search_all w cfg queries PDFSearcher_init))"
proof (rule search_all_invariant)
  show "claimed_once PDFSearcher_init"
    by (simp add: claimed_once_def PDFSearcher_init_def seed_calls_on_def)
  show "claimed_once (s\<lparr>calls := calls s @ [Search q]\<rparr>)" if "claimed_once s" for s q
    using that by (simp add: claimed_once_def seed_calls_on_def)
  show "claimed_once (snd (process_url w cfg u (l, s)))" if "claimed_once s" for u l s
    using that by (rule claimed_once_process_url)
qed

section \<open>Scrapes and their links\<close>

lemma seed_scrapes_process_url:
  assumes "seed_scrapes S w cfg s" and "u \<in> S"
  shows "seed_scrapes S w cfg (snd (process_url w cfg u (l, s)))"
  using assms
  by (auto simp: seed_scrapes_def process_url_calls url_calls_def split: if_splits)

lemma seed_scrapes_search_all:
  "seed_scrapes (seeds w queries) w cfg (snd (search_all w cfg queries PDFSearcher_init))"
proof (rule search_all_invariant)
  show "seed_scrapes (seeds w queries) w cfg PDFSearcher_init"
    by (simp add: seed_scrapes_def PDFSearcher_init_def)
  show "seed_scrapes (seeds w queries) w cfg (s\<lparr>calls := calls s @ [Search q]\<rparr>)"
    if "seed_scrapes (seeds w queries) w cfg s" for s q
    using that by (auto simp: seed_scrapes_def)
  show "seed_scrapes (seeds w queries) w cfg (snd (process_url w cfg u (l, s)))"
    if "seed_scrapes (seeds w queries) w cfg s" "q \<in> snd ` set queries"
      "search w q = Some rs" "u \<in> set rs" for u l s q rs
  proof (rule seed_scrapes_process_url)
    show "seed_scrapes (seeds w queries) w cfg s" by (rule that(1))
    show "u \<in> seeds w queries"
      using that(2-4) by (force simp: seeds_def)
  qed
qed

lemma those_map_Some:
  "those (map f xs) = Some ys \<Longrightarrow> set ys = {v. \<exists>x\<in>set xs. f x = Some v}"
proof (induction xs arbitrary: ys)
  case Nil
  then show ?case by simp
next
  case (Cons x xs)
  then show ?case by (auto split: option.splits)
qed

lemma those_map_None:
  "those (map f xs) = None \<longleftrightarrow> (\<exists>x\<in>set xs. f x = None)"
  by (induction xs) (auto split: option.splits)

lemma pdf_urls_Some:
  assumes "pdf_urls w url hrefs = Some urls"
  shows "distinct urls
         \<and> set urls = {v. \<exists>href\<in>set hrefs. endswith href ''.pdf'' \<and> urljoin w url href = Some v}"
proof -
  from assms obtain ys where
    ys: "those (map (urljoin w url) (filter (\<lambda>href. endswith href ''.pdf'') hrefs)) = Some ys"
    and urls: "urls = remdups ys"
    by (auto simp: pdf_urls_def)
  from those_map_Some [OF ys] urls show ?thesis by auto
qed

lemma pdf_urls_None:
  "pdf_urls w url hrefs = None \<longleftrightarrow> (\<exists>href\<in>set hrefs. endswith href ''.pdf'' \<and> urljoin w url href = None)"
  by (auto simp: pdf_urls_def those_map_None)

section \<open>Probes\<close>

lemma check_direct_pdf_links:
  "fst (check_direct_pdf w cfg org url (pdf_links, s)) =
     (if \<not> limiter_raises cfg url \<and> (\<exists>r. http_head w url = Some r \<and> is_pdf_response r)
      then finsert url pdf_links else pdf_links)"
  by (simp add: check_direct_pdf_def Let_def split: option.splits)

lemma all_pdf_check: "all_pdf w (fst ls) \<Longrightarrow> all_pdf w (fst (check_direct_pdf w cfg org url ls))"
  by (cases ls) (auto simp: check_direct_pdf_links all_pdf_def)

lemma all_pdf_fold_check:
  "all_pdf w (fst ls) \<Longrightarrow> all_pdf w (fst (fold (check_direct_pdf w cfg org) urls ls))"
  by (induction urls arbitrary: ls) (simp_all add: all_pdf_check)

lemma all_pdf_scrape:
  "all_pdf w (fst ls) \<Longrightarrow> all_pdf w (fst (scrape_page_for_pdfs w cfg org url ls))"
  by (cases ls) (simp add: scrape_page_for_pdfs_def Let_def all_pdf_fold_check split: option.splits)

lemma all_pdf_process_url:
  "all_pdf w (fst ls) \<Longrightarrow> all_pdf w (fst (process_url w cfg url ls))"
  by (cases ls) (simp add: process_url_def Let_def all_pdf_check all_pdf_scrape)

lemma all_pdf_crawl: "all_pdf w (fst ls) \<Longrightarrow> all_pdf w (fst (crawl w cfg urls ls))"
  by (induction urls arbitrary: ls) (simp_all add: crawl_Nil crawl_Cons all_pdf_process_url)

lemma all_pdf_find_pdf_links: "all_pdf w (fst (find_pdf_links w cfg query s))"
proof (cases "search w query")
  case None
  then show ?thesis by (simp add: find_pdf_links_def all_pdf_def)
next
  case (Some rs)
  have "all_pdf w (fst (crawl w cfg rs ({||}, s\<lparr>calls := calls s @ [Search query]\<rparr>)))"
    by (rule all_pdf_crawl) (simp add: all_pdf_def)
  then show ?thesis using Some by (simp add: find_pdf_links_def)
qed

lemma set_update_subset: "set (AList.update k v al) \<subseteq> insert (k, v) (set al)"
  by (induction al) auto

lemma all_pdf_fold_search_step:
  "\<forall>(title, links) \<in> set (fst acc). all_pdf w links \<Longrightarrow>
   \<forall>(title, links) \<in> set (fst (fold (search_step w cfg) queries acc)). all_pdf w links"
proof (induction queries arbitrary: acc)
  case Nil
  then show ?case by simp
next
  case (Cons tq queries)
  obtain title query where tq: "tq = (title, query)" by (cases tq)
  obtain rs s where acc: "acc = (rs, s)" by (cases acc)
  have "\<forall>(title, links) \<in> set (fst (search_step w cfg tq acc)). all_pdf w links"
    using Cons.prems set_update_subset [of title "fst (find_pdf_links w cfg query s)" rs]
      all_pdf_find_pdf_links [of w cfg query s]
    by (auto simp: tq acc fst_search_step)
  then show ?case by (simp add: Cons.IH)
qed

lemma all_pdf_search_all:
  "(title, links) \<in> set (fst (search_all w cfg queries s)) \<Longrightarrow> all_pdf w links"
  using all_pdf_fold_search_step [of "([], s)" w cfg queries]
  by (auto simp: search_all_fold)

section \<open>Rows of the result file\<close>

lemma write_query_block:
  "write_query (title, links) (rows, n) = (rows @ query_block (title, links), n + fcard links)"
  by (simp add: write_query_def query_block_def)

lemma fold_write_query:
  "fold write_query rs (rows, n) =
     (rows @ concat (map query_block rs), n + sum_list (map (\<lambda>(title, links). fcard links) rs))"
proof (induction rs arbitrary: rows n)
  case Nil
  then show ?case by simp
next
  case (Cons r rs)
  obtain title links where r: "r = (title, links)" by (cases r)
  show ?case
    by (simp add: r write_query_block Cons.IH)
qed

section \<open>When the limiter returns\<close>

lemma throttle_returns:
  "1 \<le> py_int limit \<Longrightarrow> \<exists>t. throttle limit current_time ts clock = Inr t \<and> clock \<le> t"
  by (cases ts) (auto simp: throttle_def Let_def)

lemma throttle_raises:
  "py_int limit < 1 \<Longrightarrow> throttle limit current_time [] clock = Inl IndexError"
  by (simp add: throttle_def)

lemma throttle_Nil: "throttle limit current_time [] clock = Inr t \<Longrightarrow> 1 \<le> py_int limit \<and> t = clock"
  by (auto simp: throttle_def split: if_splits)

lemma wait_returns:
  assumes "\<not> limiter_raises cfg url"
  shows "\<exists>t. fst (wait cfg url current_time t_lock rl) = Inr t \<and> t_lock \<le> t"
proof -
  from assms obtain domain where d: "urlparse_netloc url = Inr domain"
    by (cases "urlparse_netloc url") (auto simp: limiter_raises_def)
  from assms have g: "1 \<le> py_int (requests_per_second cfg)"
    and h: "1 \<le> py_int (domain_rate_limit cfg)" and m: "0 \<le> min_request_delay cfg"
    by (auto simp: limiter_raises_def)
  let ?rl1 = "prune current_time domain rl"
  from throttle_returns [OF g] obtain t1 where
    t1: "throttle (requests_per_second cfg) current_time (global_timestamps ?rl1) t_lock = Inr t1"
    and "t_lock \<le> t1" by blast
  from throttle_returns [OF h] obtain t2 where
    t2: "throttle (domain_rate_limit cfg) current_time (domain_timestamps ?rl1 domain) t1 = Inr t2"
    and "t1 \<le> t2" by blast
  have "fst (wait cfg url current_time t_lock rl) = Inr (t2 + min_request_delay cfg)"
    using d t1 t2 m by (simp add: wait_def Let_def)
  moreover have "t_lock \<le> t2 + min_request_delay cfg"
    using \<open>t_lock \<le> t1\<close> \<open>t1 \<le> t2\<close> m by simp
  ultimately show ?thesis by blast
qed

lemma prune_empty:
  assumes "global_timestamps rl = []" and "\<forall>d. domain_timestamps rl d = []"
  shows "global_timestamps (prune c domain rl) = []" and "domain_timestamps (prune c domain rl) d = []"
  using assms by (simp_all add: prune_def)

lemma wait_raises_iff:
  assumes "limiter_inv cfg rl"
  shows "isl (fst (wait cfg url current_time t_lock rl)) \<longleftrightarrow> limiter_raises cfg url"
proof (cases "limiter_raises cfg url")
  case False
  from wait_returns [OF this, of current_time t_lock rl] show ?thesis using False by force
next
  case True
  show ?thesis
  proof (cases "urlparse_netloc url")
    case (Inl e)
    then show ?thesis using True by (simp add: wait_def)
  next
    case (Inr domain)
    let ?rl1 = "prune current_time domain rl"
    show ?thesis
    proof (cases "py_int (requests_per_second cfg) < 1 \<or> py_int (domain_rate_limit cfg) < 1")
      case low: True
      then have e: "global_timestamps ?rl1 = []" "domain_timestamps ?rl1 domain = []"
        using assms prune_empty unfolding limiter_inv_def by blast+
      show ?thesis
      proof (cases "py_int (requests_per_second cfg) < 1")
        case True
        then show ?thesis
          using Inr e \<open>limiter_raises cfg url\<close> by (simp add: wait_def Let_def throttle_raises)
      next
        case False
        then have "py_int (domain_rate_limit cfg) < 1" using low by simp
        then show ?thesis
          using Inr e False \<open>limiter_raises cfg url\<close>
          by (simp add: wait_def Let_def throttle_raises throttle_def)
      qed
    next
      case False
      then have g: "1 \<le> py_int (requests_per_second cfg)"
        and h: "1 \<le> py_int (domain_rate_limit cfg)" by auto
      with True Inr have m: "min_request_delay cfg < 0" by (simp add: limiter_raises_def)
      from throttle_returns [OF g] obtain t1 where
        t1: "throttle (requests_per_second cfg) current_time (global_timestamps ?rl1) t_lock = Inr t1"
        by blast
      from throttle_returns [OF h] obtain t2 where
        t2: "throttle (domain_rate_limit cfg) current_time (domain_timestamps ?rl1 domain) t1 = Inr t2"
        by blast
      show ?thesis using Inr t1 t2 m True by (simp add: wait_def Let_def)
    qed
  qed
qed

lemma wait_keeps_limiter_inv:
  assumes "limiter_inv cfg rl"
  shows "limiter_inv cfg (snd (wait cfg url current_time t_lock rl))"
proof (cases "py_int (requests_per_second cfg) < 1 \<or> py_int (domain_rate_limit cfg) < 1")
  case False
  then show ?thesis by (simp add: limiter_inv_def)
next
  case low: True
  then have empty: "global_timestamps rl = []" "\<forall>d. domain_timestamps rl d = []"
    using assms by (auto simp: limiter_inv_def)
  show ?thesis
  proof (cases "urlparse_netloc url")
    case (Inl e)
    then show ?thesis using assms by (simp add: wait_def)
  next
    case (Inr domain)
    let ?rl1 = "prune current_time domain rl"
    have e: "global_timestamps ?rl1 = []" "\<And>d. domain_timestamps ?rl1 d = []"
      using empty by (simp_all add: prune_def)
    have inv1: "limiter_inv cfg ?rl1"
      using e by (simp add: limiter_inv_def)
    show ?thesis
    proof (cases "py_int (requests_per_second cfg) < 1")
      case True
      then show ?thesis
        using Inr e inv1 by (simp add: wait_def Let_def throttle_raises)
    next
      case False
      then have "py_int (domain_rate_limit cfg) < 1" using low by simp
      then show ?thesis
        using Inr e False inv1 by (simp add: wait_def Let_def throttle_raises throttle_def)
    qed
  qed
qed

lemma limiter_inv_init: "limiter_inv cfg RateLimiter_init"
  by (simp add: limiter_inv_def RateLimiter_init_def)


section \<open>Calls with a fresh clock\<close>

text \<open>
  A call that reads the clock when it obtains the lock, no earlier than the last call
  returned, keeps every window within its ceiling.
\<close>

lemma length_filter_filter_le: "length (filter P (filter Q xs)) \<le> length (filter P xs)"
  by (induction xs) auto

lemma window_ok_mono: "window_ok limit now ts \<Longrightarrow> now \<le> now' \<Longrightarrow> window_ok limit now' ts"
  by (force simp: window_ok_def)

lemma window_ok_admit:
  assumes ok: "window_ok limit now ts" and now: "now \<le> cur" and limit: "1 \<le> limit"
    and pruned: "pruned = filter (\<lambda>t. cur - t < 1) ts"
    and t2: "cur \<le> t2"
    and full: "limit \<le> int (length pruned) \<Longrightarrow> \<exists>p0 ps. pruned = p0 # ps \<and> p0 + 1 \<le> t2"
  shows "window_ok limit t2 (pruned @ [t2])"
proof -
  have le: "\<forall>t\<in>set ts. t \<le> cur" using ok now by (force simp: window_ok_def)
  have W: "int (length (in_window T ts)) \<le> limit" for T
    using ok by (simp add: window_ok_def)
  have pruned_window: "pruned = in_window cur ts"
    unfolding pruned in_window_def using le by (intro filter_cong) auto
  have len: "int (length pruned) \<le> limit"
    using W [of cur] by (simp add: pruned_window)
  have recent: "int (length (filter (\<lambda>t. t2 - 1 < t) pruned)) \<le> limit - 1"
  proof (cases "limit \<le> int (length pruned)")
    case True
    from full [OF True] obtain p0 ps where p: "pruned = p0 # ps" and p0: "p0 + 1 \<le> t2" by blast
    have "length (filter (\<lambda>t. t2 - 1 < t) pruned) = length (filter (\<lambda>t. t2 - 1 < t) ps)"
      using p p0 by simp
    also have "\<dots> \<le> length ps" by simp
    finally show ?thesis using len p by simp
  next
    case False
    have "length (filter (\<lambda>t. t2 - 1 < t) pruned) \<le> length pruned" by simp
    then show ?thesis using False by linarith
  qed
  have "int (length (in_window T (pruned @ [t2]))) \<le> limit" for T
  proof (cases "t2 \<le> T")
    case True
    have "length (in_window T pruned) \<le> length (filter (\<lambda>t. t2 - 1 < t) pruned)"
      unfolding in_window_def
    proof (induction pruned)
      case Nil
      then show ?case by simp
    next
      case (Cons a as)
      then show ?case using True by auto
    qed
    then have "int (length (in_window T (pruned @ [t2]))) \<le> int (length (filter (\<lambda>t. t2 - 1 < t) pruned)) + 1"
      by (simp add: in_window_def)
    then show ?thesis using recent by linarith
  next
    case False
    then have "in_window T (pruned @ [t2]) = in_window T pruned"
      by (simp add: in_window_def)
    moreover have "length (in_window T pruned) \<le> length (in_window T ts)"
      unfolding in_window_def pruned by (rule length_filter_filter_le)
    ultimately show ?thesis using W [of T] by simp
  qed
  moreover have "\<forall>t\<in>set (pruned @ [t2]). t \<le> t2"
    using le t2 by (auto simp: pruned)
  ultimately show ?thesis by (simp add: window_ok_def)
qed

lemma throttle_waits:
  assumes "1 \<le> py_int limit" and "cur \<le> clock"
  shows "\<exists>t. throttle limit cur ts clock = Inr t \<and> clock \<le> t
           \<and> (py_int limit \<le> int (length ts) \<longrightarrow> (\<exists>p0 ps. ts = p0 # ps \<and> p0 + 1 \<le> t))"
proof (cases ts)
  case Nil
  then show ?thesis using assms by (simp add: throttle_def)
next
  case (Cons p0 ps)
  then show ?thesis using assms by (auto simp: throttle_def Let_def)
qed

lemma fresh_clock_wait_within_ceilings:
  assumes ok: "\<not> limiter_raises cfg url" and inv: "within_ceilings cfg now rl" and now: "now \<le> cur"
  shows "\<exists>t rl'. wait cfg url cur cur rl = (Inr t, rl') \<and> cur \<le> t \<and> within_ceilings cfg t rl'"
proof -
  from ok obtain domain where d: "urlparse_netloc url = Inr domain"
    by (cases "urlparse_netloc url") (auto simp: limiter_raises_def)
  from ok have g: "1 \<le> py_int (requests_per_second cfg)"
    and h: "1 \<le> py_int (domain_rate_limit cfg)" and m: "0 \<le> min_request_delay cfg"
    by (auto simp: limiter_raises_def)
  let ?rl1 = "prune cur domain rl"
  let ?pg = "filter (\<lambda>t. cur - t < 1) (global_timestamps rl)"
  let ?pd = "filter (\<lambda>t. cur - t < 1) (domain_timestamps rl domain)"
  have pg: "global_timestamps ?rl1 = ?pg" and pd: "domain_timestamps ?rl1 domain = ?pd"
    and other: "\<And>d. d \<noteq> domain \<Longrightarrow> domain_timestamps ?rl1 d = domain_timestamps rl d"
    by (simp_all add: prune_def)
  from throttle_waits [OF g, of cur cur ?pg] obtain t1 where
    t1: "throttle (requests_per_second cfg) cur ?pg cur = Inr t1" and c1: "cur \<le> t1"
    and f1: "py_int (requests_per_second cfg) \<le> int (length ?pg) \<longrightarrow> (\<exists>p0 ps. ?pg = p0 # ps \<and> p0 + 1 \<le> t1)"
    by auto
  from throttle_waits [OF h c1, of ?pd] obtain t2 where
    t2: "throttle (domain_rate_limit cfg) cur ?pd t1 = Inr t2" and c2: "t1 \<le> t2"
    and f2: "py_int (domain_rate_limit cfg) \<le> int (length ?pd) \<longrightarrow> (\<exists>p0 ps. ?pd = p0 # ps \<and> p0 + 1 \<le> t2)"
    by auto
  let ?rl2 = "\<lparr> global_timestamps = ?pg @ [t2],
               domain_timestamps = (domain_timestamps ?rl1)(domain := ?pd @ [t2]) \<rparr>"
  let ?t = "t2 + min_request_delay cfg"
  have w: "wait cfg url cur cur rl = (Inr ?t, ?rl2)"
    using d t1 t2 m pg pd by (simp add: wait_def Let_def)
  have gok: "window_ok (py_int (requests_per_second cfg)) t2 (?pg @ [t2])"
  proof (rule window_ok_admit [where ts = "global_timestamps rl" and cur = cur and now = now])
    show "window_ok (py_int (requests_per_second cfg)) now (global_timestamps rl)"
      using inv by (simp add: within_ceilings_def)
    show "\<exists>p0 ps. ?pg = p0 # ps \<and> p0 + 1 \<le> t2"
      if "py_int (requests_per_second cfg) \<le> int (length ?pg)"
      using f1 that c2 by force
  qed (use now g c1 c2 in auto)
  have dok: "window_ok (py_int (domain_rate_limit cfg)) t2 (?pd @ [t2])"
  proof (rule window_ok_admit [where ts = "domain_timestamps rl domain" and cur = cur and now = now])
    show "window_ok (py_int (domain_rate_limit cfg)) now (domain_timestamps rl domain)"
      using inv by (simp add: within_ceilings_def)
    show "\<exists>p0 ps. ?pd = p0 # ps \<and> p0 + 1 \<le> t2"
      if "py_int (domain_rate_limit cfg) \<le> int (length ?pd)"
      using f2 that by force
  qed (use now h c1 c2 in auto)
  have t: "t2 \<le> ?t" "now \<le> ?t" "cur \<le> ?t" using m c1 c2 now by auto
  have "within_ceilings cfg ?t ?rl2"
    unfolding within_ceilings_def
  proof (intro conjI allI)
    show "window_ok (py_int (requests_per_second cfg)) ?t (global_timestamps ?rl2)"
      using window_ok_mono [OF gok t(1)] by simp
    show "window_ok (py_int (domain_rate_limit cfg)) ?t (domain_timestamps ?rl2 d')" for d'
    proof (cases "d' = domain")
      case True
      then show ?thesis using window_ok_mono [OF dok t(1)] by simp
    next
      case False
      have "window_ok (py_int (domain_rate_limit cfg)) now (domain_timestamps rl d')"
        using inv by (simp add: within_ceilings_def)
      from window_ok_mono [OF this t(2)] show ?thesis using False other by simp
    qed
  qed
  with w t(3) show ?thesis by blast
qed

lemma within_ceilings_init:
  "1 \<le> py_int (requests_per_second cfg) \<Longrightarrow> 1 \<le> py_int (domain_rate_limit cfg)
   \<Longrightarrow> within_ceilings cfg now RateLimiter_init"
  by (simp add: within_ceilings_def window_ok_def in_window_def RateLimiter_init_def)

section \<open>The claims\<close>

subsection \<open>C1: at most once\<close>

text \<open>
  C1, as amended. In every run of the queries from a fresh searcher, the calls that
  \<open>_process_url\<close> makes for an address it was handed (the probe of a seed or the
  scrape of a seed) number at most one for each address: the check and insert on the
  \<open>cache\<close> lets the first submission through, returns at once with nothing changed
  for an address already in the \<open>cache\<close>, and leaves every address it has seen in
  the \<open>cache\<close>. The links extracted from a page are probed without a look at the
  \<open>cache\<close> and are not counted here.
\<close>

theorem seed_claimed_at_most_once:
  "length (seed_calls_on u (calls (snd (search_all w cfg queries PDFSearcher_init)))) \<le> 1
   \<and> (u |\<in>| cache s \<longrightarrow> process_url w cfg u (l, s) = (l, s))
   \<and> u |\<in>| cache (snd (process_url w cfg u (l, s)))"
proof (intro conjI)
  have "claimed_once (snd (search_all w cfg queries PDFSearcher_init))"
    by (rule claimed_once_search_all)
  then have "length (seed_calls_on u (calls (snd (search_all w cfg queries PDFSearcher_init))))
      \<le> (if u |\<in>| cache (snd (search_all w cfg queries PDFSearcher_init)) then 1 else 0)"
    unfolding claimed_once_def by (rule spec)
  then show "length (seed_calls_on u (calls (snd (search_all w cfg queries PDFSearcher_init)))) \<le> 1"
    by (simp split: if_splits)
  show "u |\<in>| cache s \<longrightarrow> process_url w cfg u (l, s) = (l, s)"
    by (simp add: process_url_def)
  show "u |\<in>| cache (snd (process_url w cfg u (l, s)))"
    by (simp add: process_url_cache)
qed

text \<open>The theorem at the document of the example site, once claimed.\<close>

theorem seed_claimed_at_most_once_witness:
  "length (seed_calls_on report_pdf
      (calls (snd (search_all budget_site default_Config [(''Budget'', ''budget'')] PDFSearcher_init)))) \<le> 1
   \<and> report_pdf |\<in>| cache \<lparr> cache = {|report_pdf|}, calls = [] \<rparr>
   \<and> process_url budget_site default_Config report_pdf ({||}, \<lparr> cache = {|report_pdf|}, calls = [] \<rparr>)
       = ({||}, \<lparr> cache = {|report_pdf|}, calls = [] \<rparr>)"
  using seed_claimed_at_most_once [where u = report_pdf and w = budget_site and cfg = default_Config
      and queries = "[(''Budget'', ''budget'')]" and s = "\<lparr> cache = {|report_pdf|}, calls = [] \<rparr>"
      and l = "{||}"]
  by simp

text \<open>
  C1 as stated fails: the document of the example site is a search result and is linked
  from the page that is the other search result, and it is probed twice in the one run.
\<close>

theorem linked_document_probed_twice:
  "calls_on report_pdf (made (run budget_site ''Tue Nov  3 12:00:00 2026'' (Some [''Budget:budget''])))
     = [CheckDirect Seed report_pdf, CheckDirect (Link landing_page) report_pdf]"
  by code_simp

subsection \<open>C2: the rate bound\<close>

text \<open>
  C2 fails on the code. Three calls of \<open>wait\<close> for the same host under the default
  configuration (ceiling 1 a second for a host): the first at time 0; the second reads
  the clock at 0.9 and is admitted at 1.0; the third reads the clock at 0.95, while the
  second holds the lock, and gets the lock at 1.25. It prunes and computes its sleep
  from the reading 0.95, sleeps 0.05 twice and is admitted at 1.35: two admissions of
  the host, 1.0 and 1.35, lie in the second that ends at 1.35. With a clock read when
  the lock is obtained this cannot happen (lemma \<open>fresh_clock_wait_within_ceilings\<close>).
\<close>

theorem stale_clock_exceeds_host_ceiling:
  "(let (r1, rl1) = wait default_Config report_pdf 0 0 RateLimiter_init;
        (r2, rl2) = wait default_Config landing_page (9 / 10) (9 / 10) rl1;
        (r3, rl3) = wait default_Config report_pdf (19 / 20) (5 / 4) rl2
    in r1 = Inr (1 / 4) \<and> r2 = Inr (5 / 4) \<and> r3 = Inr (8 / 5)
       \<and> domain_timestamps rl3 ''www.defense.gov'' = [0, 1, 27 / 20]
       \<and> in_window (27 / 20) (domain_timestamps rl3 ''www.defense.gov'') = [1, 27 / 20]
       \<and> py_int (domain_rate_limit default_Config) = 1)"
  by code_simp

subsection \<open>C3: what the probe emits\<close>

text \<open>
  C3. The probe adds the address to the set of links exactly when the limiter lets the
  request through and the response to the header-only request has status 200 and a
  \<open>Content-Type\<close> that contains \<open>application/pdf\<close>; and every address in a set of
  links that a run returns has such a response: none with another response, and none
  whose request failed, is emitted.
\<close>

theorem probe_emits_iff_pdf_response:
  "fst (check_direct_pdf w cfg org url (pdf_links, s)) =
     (if \<not> limiter_raises cfg url
         \<and> (\<exists>r. http_head w url = Some r \<and> status_code r = 200
                \<and> contains (case content_type r of None \<Rightarrow> [] | Some ct \<Rightarrow> ct) ''application/pdf'')
      then finsert url pdf_links else pdf_links)
   \<and> ((title, links) \<in> set (fst (search_all w cfg queries s0)) \<and> u |\<in>| links \<longrightarrow>
        (\<exists>r. http_head w u = Some r \<and> status_code r = 200
                \<and> contains (case content_type r of None \<Rightarrow> [] | Some ct \<Rightarrow> ct) ''application/pdf''))"
proof (intro conjI impI)
  show "fst (check_direct_pdf w cfg org url (pdf_links, s)) =
     (if \<not> limiter_raises cfg url
         \<and> (\<exists>r. http_head w url = Some r \<and> status_code r = 200
                \<and> contains (case content_type r of None \<Rightarrow> [] | Some ct \<Rightarrow> ct) ''application/pdf'')
      then finsert url pdf_links else pdf_links)"
    by (simp add: check_direct_pdf_links is_pdf_response_def)
next
  assume "(title, links) \<in> set (fst (search_all w cfg queries s0)) \<and> u |\<in>| links"
  then have "all_pdf w links" and "u |\<in>| links"
    using all_pdf_search_all by blast+
  then show "\<exists>r. http_head w u = Some r \<and> status_code r = 200
                \<and> contains (case content_type r of None \<Rightarrow> [] | Some ct \<Rightarrow> ct) ''application/pdf''"
    by (auto simp: all_pdf_def is_pdf_response_def)
qed

text \<open>The theorem at the run of the example site, which emits its one document.\<close>

theorem probe_emits_iff_pdf_response_witness:
  "(''Budget'', {|report_pdf|})
     \<in> set (fst (search_all budget_site default_Config [(''Budget'', ''budget'')] PDFSearcher_init))
   \<and> report_pdf |\<in>| {|report_pdf|}
   \<and> (\<exists>r. http_head budget_site report_pdf = Some r \<and> status_code r = 200
          \<and> contains (case content_type r of None \<Rightarrow> [] | Some ct \<Rightarrow> ct) ''application/pdf'')"
proof -
  have prem: "(''Budget'', {|report_pdf|})
     \<in> set (fst (search_all budget_site default_Config [(''Budget'', ''budget'')] PDFSearcher_init))"
    by code_simp
  then show ?thesis
    using probe_emits_iff_pdf_response [where w = budget_site and cfg = default_Config
        and title = "''Budget''" and links = "{|report_pdf|}" and queries = "[(''Budget'', ''budget'')]"
        and ?s0.0 = PDFSearcher_init and u = report_pdf]
    by simp
qed

subsection \<open>C4: the limiter never fails\<close>

text \<open>
  C4 fails on the code. With a global ceiling of 0.5 a second the first call of
  \<open>wait\<close> finds 0 entries, which is not below \<open>int(0.5) = 0\<close>, and indexes the empty
  list: \<open>IndexError\<close>. The same happens with a host ceiling of 0.5. An address whose
  network location has an opening square bracket alone raises \<open>ValueError\<close> on
  line 46 under the default configuration.
\<close>

theorem wait_raises_on_low_ceiling:
  "fst (wait (default_Config\<lparr>requests_per_second := 1 / 2\<rparr>) report_pdf 0 0 RateLimiter_init)
     = Inl IndexError
   \<and> fst (wait (default_Config\<lparr>domain_rate_limit := 1 / 2\<rparr>) report_pdf 0 0 RateLimiter_init)
     = Inl IndexError
   \<and> fst (wait default_Config broken_link 0 0 RateLimiter_init) = Inl ValueError"
  by code_simp

subsection \<open>C5: the depth bound\<close>

text \<open>
  C5. In every run of the queries from a fresh searcher, every scrape is the scrape of
  a seed (an address that the search provider returned for one of the queries), and
  every call made for a link extracted from a page \<open>p\<close> is a probe, of a link of
  \<open>p\<close>, where \<open>p\<close> was scraped as a seed: an address found on a page is probed and
  never scraped, and no call lies further than two steps from the search results.
\<close>

theorem scrape_only_seeds:
  "(ScrapePage org v \<in> set (calls (snd (search_all w cfg queries PDFSearcher_init)))
      \<longrightarrow> org = Seed \<and> v \<in> seeds w queries)
   \<and> (CheckDirect (Link p) v \<in> set (calls (snd (search_all w cfg queries PDFSearcher_init)))
      \<longrightarrow> ScrapePage Seed p \<in> set (calls (snd (search_all w cfg queries PDFSearcher_init)))
          \<and> v \<in> set (page_links w cfg p))"
  using seed_scrapes_search_all [of w queries cfg]
  unfolding seed_scrapes_def by blast

text \<open>The theorem at the run of the example site: its page and a link of the page.\<close>

theorem scrape_only_seeds_witness:
  "ScrapePage Seed landing_page
     \<in> set (calls (snd (search_all budget_site default_Config [(''Budget'', ''budget'')] PDFSearcher_init)))
   \<and> landing_page \<in> seeds budget_site [(''Budget'', ''budget'')]
   \<and> CheckDirect (Link landing_page) viewer_link
     \<in> set (calls (snd (search_all budget_site default_Config [(''Budget'', ''budget'')] PDFSearcher_init)))
   \<and> viewer_link \<in> set (page_links budget_site default_Config landing_page)"
proof -
  have p1: "ScrapePage Seed landing_page
     \<in> set (calls (snd (search_all budget_site default_Config [(''Budget'', ''budget'')] PDFSearcher_init)))"
    by code_simp
  have p2: "CheckDirect (Link landing_page) viewer_link
     \<in> set (calls (snd (search_all budget_site default_Config [(''Budget'', ''budget'')] PDFSearcher_init)))"
    by code_simp
  show ?thesis
    using p1 p2
      scrape_only_seeds [where org = Seed and v = landing_page and w = budget_site
        and cfg = default_Config and queries = "[(''Budget'', ''budget'')]"]
      scrape_only_seeds [where p = landing_page and v = viewer_link and w = budget_site
        and cfg = default_Config and queries = "[(''Budget'', ''budget'')]"]
    by blast
qed

subsection \<open>C6: the links of a page\<close>

text \<open>
  C6, as amended. For a page that was fetched, when the limiter lets the request
  through and \<open>urljoin\<close> resolves every \<open>href\<close> that ends in \<open>.pdf\<close>, the scrape
  extracts exactly the resolved targets of the hyperlinks whose \<open>href\<close> text, as it
  stands in the page and before it is resolved, ends in \<open>.pdf\<close>, each once, and
  probes each of them. The test is on the whole attribute text, not on the path of the
  resolved address.
\<close>

theorem scrape_selects_by_href_suffix:
  assumes "\<not> limiter_raises cfg url" and "http_get w url = Some hrefs"
    and "\<forall>href\<in>set hrefs. endswith href ''.pdf'' \<longrightarrow> urljoin w url href \<noteq> None"
  shows "\<exists>urls. pdf_urls w url hrefs = Some urls \<and> distinct urls
           \<and> set urls = {v. \<exists>href\<in>set hrefs. endswith href ''.pdf'' \<and> urljoin w url href = Some v}
           \<and> new_calls s (snd (scrape_page_for_pdfs w cfg org url (l, s)))
               = ScrapePage org url # map (CheckDirect (Link url)) urls"
proof -
  have "pdf_urls w url hrefs \<noteq> None"
    using assms(3) by (auto simp: pdf_urls_None)
  then obtain urls where urls: "pdf_urls w url hrefs = Some urls" by auto
  have "page_links w cfg url = urls"
    using assms(1,2) urls by (simp add: page_links_def)
  then have "new_calls s (snd (scrape_page_for_pdfs w cfg org url (l, s)))
               = ScrapePage org url # map (CheckDirect (Link url)) urls"
    by (simp add: new_calls_def scrape_calls)
  with urls pdf_urls_Some [OF urls] show ?thesis by blast
qed

text \<open>The theorem at the page of the example site.\<close>

theorem scrape_selects_by_href_suffix_witness:
  "\<not> limiter_raises default_Config landing_page
   \<and> http_get budget_site landing_page = Some [report_pdf, download_link, viewer_link]
   \<and> list_all (\<lambda>href. endswith href ''.pdf'' \<longrightarrow> urljoin budget_site landing_page href \<noteq> None)
        [report_pdf, download_link, viewer_link]
   \<and> (\<exists>urls. pdf_urls budget_site landing_page [report_pdf, download_link, viewer_link] = Some urls
         \<and> distinct urls
         \<and> set urls = {v. \<exists>href\<in>set [report_pdf, download_link, viewer_link].
                            endswith href ''.pdf'' \<and> urljoin budget_site landing_page href = Some v}
         \<and> new_calls PDFSearcher_init
              (snd (scrape_page_for_pdfs budget_site default_Config Seed landing_page ({||}, PDFSearcher_init)))
             = ScrapePage Seed landing_page # map (CheckDirect (Link landing_page)) urls)"
proof -
  have h1: "\<not> limiter_raises default_Config landing_page" by code_simp
  have h2: "http_get budget_site landing_page = Some [report_pdf, download_link, viewer_link]"
    by code_simp
  have h3: "\<forall>href\<in>set [report_pdf, download_link, viewer_link].
         endswith href ''.pdf'' \<longrightarrow> urljoin budget_site landing_page href \<noteq> None"
    by code_simp
  have h4: "list_all (\<lambda>href. endswith href ''.pdf'' \<longrightarrow> urljoin budget_site landing_page href \<noteq> None)
        [report_pdf, download_link, viewer_link]"
    using h3 by (simp add: list_all_iff)
  from scrape_selects_by_href_suffix [OF h1 h2 h3, of PDFSearcher_init Seed "{||}"] h1 h2 h4
  show ?thesis by blast
qed

text \<open>
  C6 as stated fails on the page of the example site: the download link resolves to
  itself and its path ends in \<open>.pdf\<close>, yet it is left out, because the \<open>href\<close>
  ends in \<open>?download=1\<close>; the viewer link is taken, though its path is \<open>/viewer\<close>;
  and on a page with a reference that \<open>urljoin\<close> rejects nothing is extracted.
\<close>

theorem scrape_ignores_resolved_path:
  "http_get budget_site landing_page = Some [report_pdf, download_link, viewer_link]
   \<and> pdf_urls budget_site landing_page [report_pdf, download_link, viewer_link]
       = Some [report_pdf, viewer_link]
   \<and> urljoin budget_site landing_page download_link = Some download_link
   \<and> endswith (urlsplit_path download_link) ''.pdf''
   \<and> \<not> endswith (urlsplit_path viewer_link) ''.pdf''
   \<and> pdf_urls budget_site landing_page [report_pdf, broken_link] = None"
  by code_simp

subsection \<open>C7: probe or scrape\<close>

text \<open>
  C7, as amended. An address that \<open>_process_url\<close> claims, and for which the limiter
  returns, is probed directly if and only if the whole text of the address ends in
  \<open>.pdf\<close>, query and fragment included, and is scraped otherwise: the choice is a
  function of the last four characters of the address.
\<close>

theorem routing_by_url_suffix:
  assumes "u |\<notin>| cache s" and "\<not> limiter_raises cfg u"
  shows "process_url w cfg u (l, s) =
           (if endswith u ''.pdf''
            then check_direct_pdf w cfg Seed u (l, s\<lparr>cache := finsert u (cache s)\<rparr>)
            else scrape_page_for_pdfs w cfg Seed u (l, s\<lparr>cache := finsert u (cache s)\<rparr>))
         \<and> (CheckDirect Seed u \<in> set (new_calls s (snd (process_url w cfg u (l, s))))
              \<longleftrightarrow> endswith u ''.pdf'')
         \<and> (ScrapePage Seed u \<in> set (new_calls s (snd (process_url w cfg u (l, s))))
              \<longleftrightarrow> \<not> endswith u ''.pdf'')"
proof -
  have "new_calls s (snd (process_url w cfg u (l, s))) = url_calls w cfg u"
    using assms(1) by (simp add: new_calls_def process_url_calls)
  moreover have "CheckDirect Seed u \<in> set (url_calls w cfg u) \<longleftrightarrow> endswith u ''.pdf''"
    using assms(2) by (auto simp: url_calls_def)
  moreover have "ScrapePage Seed u \<in> set (url_calls w cfg u) \<longleftrightarrow> \<not> endswith u ''.pdf''"
    using assms(2) by (auto simp: url_calls_def)
  ultimately show ?thesis
    using assms by (simp add: process_url_def Let_def)
qed

text \<open>The theorem at the document of the example site, on a fresh searcher.\<close>

theorem routing_by_url_suffix_witness:
  "report_pdf |\<notin>| cache PDFSearcher_init \<and> \<not> limiter_raises default_Config report_pdf
   \<and> endswith report_pdf ''.pdf''
   \<and> CheckDirect Seed report_pdf
       \<in> set (new_calls PDFSearcher_init
                 (snd (process_url budget_site default_Config report_pdf ({||}, PDFSearcher_init))))
   \<and> ScrapePage Seed report_pdf
       \<notin> set (new_calls PDFSearcher_init
                 (snd (process_url budget_site default_Config report_pdf ({||}, PDFSearcher_init))))"
proof -
  have h1: "report_pdf |\<notin>| cache PDFSearcher_init" by (simp add: PDFSearcher_init_def)
  have h2: "\<not> limiter_raises default_Config report_pdf" by code_simp
  have e: "endswith report_pdf ''.pdf''" by code_simp
  from routing_by_url_suffix [OF h1 h2, of budget_site "{||}"] h1 h2 e show ?thesis by blast
qed

text \<open>
  C7 as stated fails: the path of the download link ends in \<open>.pdf\<close> and the address is
  scraped; the path of the viewer link does not and the address is probed.
\<close>

theorem routing_ignores_path:
  "endswith (urlsplit_path download_link) ''.pdf''
   \<and> new_calls PDFSearcher_init (snd (process_url offline default_Config download_link ({||}, PDFSearcher_init)))
       = [ScrapePage Seed download_link]
   \<and> \<not> endswith (urlsplit_path viewer_link) ''.pdf''
   \<and> new_calls PDFSearcher_init (snd (process_url offline default_Config viewer_link ({||}, PDFSearcher_init)))
       = [CheckDirect Seed viewer_link]"
  by code_simp

subsection \<open>C8: the result file\<close>

text \<open>
  C8. The rows written are: the row with the time stamp, an empty row, the row
  \<open>Query, PDF Link\<close>, then for each title of the result map, in its order, the block
  of the title, and last the row with the sum of the sizes of all sets of links. The
  block of a title has one row for each link of its set, the links strictly ascending
  in the lexicographic order, and ends with an empty row.
\<close>

theorem save_results_rows:
  "save_results ctime search_results =
     [[Str ''Search Performed On'', Str ctime], [], [Str ''Query'', Str ''PDF Link'']]
     @ concat (map query_block search_results)
     @ [[Str ''Total PDFs Found'', Num (sum_list (map (\<lambda>(title, links). fcard links) search_results))]]
   \<and> query_block (title, links) = map (\<lambda>link. [Str title, Str link]) (sorted_list_of_fset links) @ [[]]
   \<and> sorted_wrt (<) (sorted_list_of_fset links)
   \<and> set (sorted_list_of_fset links) = fset links
   \<and> length (sorted_list_of_fset links) = fcard links"
proof (intro conjI)
  show "save_results ctime search_results =
     [[Str ''Search Performed On'', Str ctime], [], [Str ''Query'', Str ''PDF Link'']]
     @ concat (map query_block search_results)
     @ [[Str ''Total PDFs Found'', Num (sum_list (map (\<lambda>(title, links). fcard links) search_results))]]"
    by (simp add: save_results_def fold_write_query)
  show "query_block (title, links) = map (\<lambda>link. [Str title, Str link]) (sorted_list_of_fset links) @ [[]]"
    by (simp add: query_block_def)
  show "sorted_wrt (<) (sorted_list_of_fset links)"
    by (simp add: sorted_list_of_fset.rep_eq)
  show "set (sorted_list_of_fset links) = fset links"
    by (simp add: sorted_list_of_fset.rep_eq)
  show "length (sorted_list_of_fset links) = fcard links"
    by (simp add: sorted_list_of_fset.rep_eq fcard.rep_eq)
qed

subsection \<open>C9: the query arguments\<close>

text \<open>
  C9, as amended. For a non-empty list of query arguments: when one of them has no
  colon, the error is logged, the program exits with status 1 and no search has been
  made; when all of them have a colon, parsing succeeds, and the map holds for each
  title the query text of the last argument with that title, where title and query
  text are the parts before and after the first colon, both stripped of white space.
\<close>

theorem get_queries_parses:
  "qs \<noteq> [] \<Longrightarrow>
   ((\<exists>q\<in>set qs. CHR '':'' \<notin> set q) \<longrightarrow>
      (\<exists>msg. get_queries (Some qs) = Inl (Exit msg 1)
         \<and> run w ctime (Some qs) = \<lparr> exit_status = 1, logged = [msg], made = [], written = None \<rparr>))
   \<and> ((\<forall>q\<in>set qs. CHR '':'' \<in> set q) \<longrightarrow>
      (\<exists>m. get_queries (Some qs) = Inr m \<and> map_of m = map_of (rev (map title_query qs))))"
proof (intro conjI impI)
  assume ne: "qs \<noteq> []" and bad: "\<exists>q\<in>set qs. CHR '':'' \<notin> set q"
  then have "\<not> list_all (\<lambda>q. CHR '':'' \<in> set q) qs" by (simp add: list_all_iff)
  from parse_queries_no_colon [OF this, of "[]"] ne
  obtain msg where "get_queries (Some qs) = Inl (Exit msg 1)" by (simp add: get_queries_Some)
  then show "\<exists>msg. get_queries (Some qs) = Inl (Exit msg 1)
         \<and> run w ctime (Some qs) = \<lparr> exit_status = 1, logged = [msg], made = [], written = None \<rparr>"
    by (simp add: run_def)
next
  assume ne: "qs \<noteq> []" and good: "\<forall>q\<in>set qs. CHR '':'' \<in> set q"
  then have "list_all (\<lambda>q. CHR '':'' \<in> set q) qs" by (simp add: list_all_iff)
  from parse_queries_colon [OF this, of "[]"] ne
  show "\<exists>m. get_queries (Some qs) = Inr m \<and> map_of m = map_of (rev (map title_query qs))"
    by (simp add: get_queries_Some)
qed

text \<open>The theorem at an argument list with a bare word and at one with colons throughout.\<close>

theorem get_queries_parses_witness:
  "[''Budget:budget'', ''navy''] \<noteq> [] \<and> (\<exists>q\<in>set [''Budget:budget'', ''navy'']. CHR '':'' \<notin> set q)
   \<and> (\<exists>msg. get_queries (Some [''Budget:budget'', ''navy'']) = Inl (Exit msg 1)
         \<and> run budget_site ''Tue Nov  3 12:00:00 2026'' (Some [''Budget:budget'', ''navy''])
             = \<lparr> exit_status = 1, logged = [msg], made = [], written = None \<rparr>)
   \<and> list_all (\<lambda>q. CHR '':'' \<in> set q) [''Budget: budget '', ''Navy:fleet'']
   \<and> (\<exists>m. get_queries (Some [''Budget: budget '', ''Navy:fleet'']) = Inr m
         \<and> map_of m = map_of (rev (map title_query [''Budget: budget '', ''Navy:fleet''])))"
proof -
  have bad: "\<exists>q\<in>set [''Budget:budget'', ''navy'']. CHR '':'' \<notin> set q" by simp
  have good: "\<forall>q\<in>set [''Budget: budget '', ''Navy:fleet'']. CHR '':'' \<in> set q" by simp
  from get_queries_parses [of "[''Budget:budget'', ''navy'']" budget_site "''Tue Nov  3 12:00:00 2026''"]
    get_queries_parses [of "[''Budget: budget '', ''Navy:fleet'']" budget_site "''Tue Nov  3 12:00:00 2026''"]
    bad good
  show ?thesis by simp
qed

text \<open>
  C9 as stated fails: of two arguments with the same title the first pair is not in the
  map, and an argument with blanks around the colon puts the stripped pair into the map,
  not the pair as written.
\<close>

theorem query_pair_replaced_or_stripped:
  "get_queries (Some [''Budget:army'', ''Budget:navy'']) = Inr [(''Budget'', ''navy'')]
   \<and> (''Budget'', ''army'') \<notin> set [(''Budget'', ''navy'')]
   \<and> get_queries (Some [''Budget : army'']) = Inr [(''Budget'', ''army'')]
   \<and> (''Budget '', '' army'') \<notin> set [(''Budget'', ''army'')]"
  by code_simp

subsection \<open>C10: the default queries\<close>

text \<open>
  C10. Without the option, and with the option and no values, the query map is
  \<open>DEFAULT_QUERIES\<close>, which has three pairs, and the run searches exactly the three
  query texts of these pairs, in order.
\<close>

theorem default_queries_when_none_given:
  "get_queries None = Inr DEFAULT_QUERIES \<and> get_queries (Some []) = Inr DEFAULT_QUERIES
   \<and> length DEFAULT_QUERIES = 3
   \<and> searched (made (run w ctime None)) = map snd DEFAULT_QUERIES
   \<and> searched (made (run w ctime (Some []))) = map snd DEFAULT_QUERIES"
proof -
  have "searched (calls (snd (search_all w default_Config DEFAULT_QUERIES PDFSearcher_init)))
          = map snd DEFAULT_QUERIES"
    by (simp add: search_all_fold searched_invariant PDFSearcher_init_def)
  then show ?thesis
    by (simp add: get_queries_def run_def case_prod_beta) (simp add: DEFAULT_QUERIES_def)
qed

end
